theory Spec2Isabelle
  imports Main "HOL-Library.Sublist"
begin

section \<open>JavaScript strings and arrays\<close>

text \<open>
  A JavaScript string is a sequence of UTF-16 code units. It is modelled as a
  \<open>string\<close>, each \<open>char\<close> standing for one code unit in the range 0..255, so
  \<open>length\<close> is the \<open>.length\<close> of the source. The white space of \<open>\s\<close> and of
  \<open>String.prototype.trim\<close> is ECMAScript's WhiteSpace and LineTerminator: in that range
  TAB, LF, VT, FF, CR, SPACE and NBSP. The line terminators, which \<open>.\<close> does not match,
  are LF and CR.
\<close>

abbreviation LF :: char where
  "LF \<equiv> CHR 0x0A"

definition is_space :: "char \<Rightarrow> bool" where
  "is_space c = (c \<in> {CHR 0x09, CHR 0x0A, CHR 0x0B, CHR 0x0C, CHR 0x0D, CHR 0x20, CHR 0xA0})"

definition is_line_terminator :: "char \<Rightarrow> bool" where
  "is_line_terminator c = (c = CHR 0x0A \<or> c = CHR 0x0D)"

definition is_digit :: "char \<Rightarrow> bool" where
  "is_digit c = (48 \<le> (of_char c :: nat) \<and> (of_char c :: nat) \<le> 57)"

definition is_word :: "char \<Rightarrow> bool" where
  "is_word c = (let n = (of_char c :: nat) in
     (48 \<le> n \<and> n \<le> 57) \<or> (65 \<le> n \<and> n \<le> 90) \<or> (97 \<le> n \<and> n \<le> 122) \<or> n = 95)"

text \<open>
  Canonicalize of a regular expression with the \<open>i\<close> flag and without the \<open>u\<close> flag:
  the upper-case form of the code unit, unless that would turn a code unit from 128 on
  into one below 128. Every pattern character of the source is below 128, and no code
  unit from 128 to 255 has an upper-case form below 128, so on the comparisons made
  here it is the upper-casing of \<open>a\<close> to \<open>z\<close>.
\<close>

definition canonicalize :: "char \<Rightarrow> char" where
  "canonicalize c = (let n = (of_char c :: nat) in
     if 97 \<le> n \<and> n \<le> 122 then char_of (n - 32) else c)"

text \<open>\<open>String.prototype.trim\<close>.\<close>

definition trim :: "string \<Rightarrow> string" where
  "trim s = rev (dropWhile is_space (rev (dropWhile is_space s)))"

text \<open>\<open>String.prototype.startsWith\<close> and \<open>String.prototype.includes\<close>.\<close>

fun startsWith :: "string \<Rightarrow> string \<Rightarrow> bool" where
  "startsWith s [] = True"
| "startsWith [] (p # ps) = False"
| "startsWith (c # cs) (p # ps) = (c = p \<and> startsWith cs ps)"

fun js_includes :: "string \<Rightarrow> string \<Rightarrow> bool" where
  "js_includes [] p = (p = [])"
| "js_includes (c # cs) p = (startsWith (c # cs) p \<or> js_includes cs p)"

text \<open>
  \<open>s.split(sep)\<close> for a separator of one code unit, and \<open>lines.join(sep)\<close>. The
  split of a string is never the empty array, so the last case of \<open>js_split\<close> is never
  taken (lemma \<open>js_split_not_Nil\<close>).
\<close>

fun js_split :: "char \<Rightarrow> string \<Rightarrow> string list" where
  "js_split sep [] = [[]]"
| "js_split sep (c # cs) =
     (if c = sep then [] # js_split sep cs
      else (case js_split sep cs of l # ls \<Rightarrow> (c # l) # ls | [] \<Rightarrow> [[c]]))"

fun js_join :: "string \<Rightarrow> string list \<Rightarrow> string" where
  "js_join sep [] = []"
| "js_join sep [l] = l"
| "js_join sep (l # m # ls) = l @ sep @ js_join sep (m # ls)"

text \<open>
  \<open>Array.prototype.sort\<close> with a comparator: the sort is stable (ECMAScript 2019), and
  for a consistent comparator its result is the one sorted arrangement that keeps the
  order of elements that compare equal. That arrangement is computed here by stable
  insertion: an element is put before the first one it does not compare greater than.
\<close>

fun insert_by :: "('a \<Rightarrow> 'a \<Rightarrow> int) \<Rightarrow> 'a \<Rightarrow> 'a list \<Rightarrow> 'a list" where
  "insert_by cmp x [] = [x]"
| "insert_by cmp x (y # ys) =
     (if cmp x y \<le> 0 then x # y # ys else y # insert_by cmp x ys)"

definition js_sort :: "('a \<Rightarrow> 'a \<Rightarrow> int) \<Rightarrow> 'a list \<Rightarrow> 'a list" where
  "js_sort cmp xs = foldr (insert_by cmp) xs []"

text \<open>
  \<open>a[i] = v\<close> on an array for an integer \<open>i\<close> below its length: an index from 0 on
  replaces the element; a negative one adds a property and leaves the elements, which
  are all that \<open>join\<close> reads, as they were.
\<close>

definition array_set :: "'a list \<Rightarrow> int \<Rightarrow> 'a \<Rightarrow> 'a list" where
  "array_set xs i v = (if 0 \<le> i then xs[nat i := v] else xs)"

section \<open>Regular expressions\<close>

text \<open>
  The abstract syntax of the regular expressions the source uses. \<open>Chr\<close> is a pattern
  character, \<open>Cls\<close> a character class (\<open>\s\<close>, \<open>\d\<close>, \<open>\w\<close>, \<open>[^...]\<close>, \<open>.\<close>) given by
  its members, \<open>Bol\<close> and \<open>Eol\<close> the assertions \<open>^\<close> and \<open>$\<close> (no \<open>m\<close> flag: start
  and end of the input), \<open>Alt\<close> the ordered choice, \<open>Star\<close> the greedy \<open>*\<close> and
  \<open>Group n\<close> the n-th capturing group.
\<close>

datatype regex =
    Eps
  | Chr char
  | Cls "char \<Rightarrow> bool"
  | Bol
  | Eol
  | Seq regex regex
  | Alt regex regex
  | Star regex
  | Group nat regex

text \<open>The greedy \<open>r?\<close> and \<open>r+\<close>, a sequence of parts and a literal word.\<close>

definition Opt :: "regex \<Rightarrow> regex" where
  "Opt r = Alt r Eps"

definition Plus :: "regex \<Rightarrow> regex" where
  "Plus r = Seq r (Star r)"

definition seq :: "regex list \<Rightarrow> regex" where
  "seq rs = foldr Seq rs Eps"

definition lit :: "string \<Rightarrow> regex" where
  "lit s = seq (map Chr s)"

text \<open>
  A match state is the index reached in the input, the input left from there, and the
  captures so far. A capture is \<open>None\<close> (\<open>undefined\<close> in the source) as long as its
  group has not taken part.
\<close>

type_synonym captures = "nat \<Rightarrow> string option"

type_synonym mstate = "nat \<times> string \<times> captures"

definition chr_eq :: "bool \<Rightarrow> char \<Rightarrow> char \<Rightarrow> bool" where
  "chr_eq ic p c = (if ic then canonicalize p = canonicalize c else p = c)"

text \<open>
  The backtracking matcher of ECMAScript, as the list of all the states in which a match
  of the expression from a state can end, in the order in which backtracking tries them:
  the first alternative before the second, one more iteration of \<open>*\<close> before stopping. An
  iteration of \<open>*\<close> that consumes nothing is rejected, as RepeatMatcher does. The flag
  \<open>ic\<close> is the \<open>i\<close> flag of the expression.
\<close>

function ms :: "bool \<Rightarrow> regex \<Rightarrow> mstate \<Rightarrow> mstate list" where
  "ms ic Eps s = [s]"
| "ms ic (Chr p) (pos, rest, caps) =
     (case rest of [] \<Rightarrow> [] | c # cs \<Rightarrow> if chr_eq ic p c then [(Suc pos, cs, caps)] else [])"
| "ms ic (Cls P) (pos, rest, caps) =
     (case rest of [] \<Rightarrow> [] | c # cs \<Rightarrow> if P c then [(Suc pos, cs, caps)] else [])"
| "ms ic Bol (pos, rest, caps) = (if pos = 0 then [(pos, rest, caps)] else [])"
| "ms ic Eol (pos, rest, caps) = (if rest = [] then [(pos, rest, caps)] else [])"
| "ms ic (Seq a b) s = concat (map (ms ic b) (ms ic a s))"
| "ms ic (Alt a b) s = ms ic a s @ ms ic b s"
| "ms ic (Star a) s =
     concat (map (\<lambda>s'. if length (fst (snd s')) < length (fst (snd s))
                         then ms ic (Star a) s' else [])
                 (ms ic a s)) @ [s]"
| "ms ic (Group n a) (pos, rest, caps) =
     map (\<lambda>(pos', rest', caps'). (pos', rest', caps'(n \<mapsto> take (pos' - pos) rest)))
         (ms ic a (pos, rest, caps))"
  by pat_completeness auto
termination
  by (relation "(\<lambda>(ic, r, s). size r) <*mlex*> measure (\<lambda>(ic, r, s). length (fst (snd s)))")
     (auto simp: wf_mlex mlex_less mlex_leq)

declare ms.simps [simp del]

text \<open>
  A regular expression object: its pattern and its \<open>i\<close> flag. None of the expressions
  of the source has the \<open>g\<close> or the \<open>y\<close> flag, so a match starts its search at index 0
  and keeps no state between calls.
\<close>

record RegExp =
  pattern :: regex
  ignoreCase :: bool

text \<open>
  RegExpBuiltinExec: the match is tried from index 0, then from index 1, and so on up to
  the end of the input; the first state of the first index with a match gives the
  captures.
\<close>

fun search_from :: "bool \<Rightarrow> regex \<Rightarrow> nat \<Rightarrow> string \<Rightarrow> captures option" where
  "search_from ic r pos rest =
     (case ms ic r (pos, rest, Map.empty) of
        (pos', rest', caps) # _ \<Rightarrow> Some caps
      | [] \<Rightarrow> (case rest of [] \<Rightarrow> None | c # cs \<Rightarrow> search_from ic r (Suc pos) cs))"

text \<open>\<open>s.match(re)\<close> (\<open>None\<close> is \<open>null\<close>) and \<open>re.test(s)\<close>.\<close>

definition js_match :: "string \<Rightarrow> RegExp \<Rightarrow> captures option" where
  "js_match s re = search_from (ignoreCase re) (pattern re) 0 s"

definition js_test :: "RegExp \<Rightarrow> string \<Rightarrow> bool" where
  "js_test re s = (js_match s re \<noteq> None)"

text \<open>
  The n-th element of a match array, read with a default for \<open>undefined\<close>. The source
  gives the default \<open>''\<close> for the comment group only; the other groups it reads take
  part in every match of their expression (lemmas \<open>action_groups\<close>, \<open>reusable_groups\<close>
  and \<open>sub_action_groups\<close> below), so their default is never read.
\<close>

definition group :: "captures \<Rightarrow> nat \<Rightarrow> string" where
  "group caps n = (case caps n of Some g \<Rightarrow> g | None \<Rightarrow> [])"

section \<open>The data model (workflowParser.ts)\<close>

record WorkflowAction =
  line :: int
  original :: string
  repository :: string
  fullPath :: string
  currentRef :: string
  currentComment :: string
  hasSkipPinning :: bool
  indentation :: string

text \<open>
  The interface \<open>UpdateResult\<close>. Its fields \<open>line\<close>, \<open>original\<close> and \<open>repository\<close>
  carry the prefix \<open>u_\<close> here, since a field name belongs to one record type.
\<close>

record UpdateResult =
  u_line :: int
  u_original :: string
  updated :: string
  u_repository :: string
  oldVersion :: string
  newVersion :: string
  newCommit :: string

section \<open>Extraction (WorkflowParser.parseWorkflow)\<close>

text \<open>\<open>/^(\s*)(?:-\s+)?uses:\s+([^@\s]+)@([^\s#]+)(?:\s*#\s*(.*))?$/\<close>\<close>

definition ACTION_REGEX :: RegExp where
  "ACTION_REGEX = \<lparr>pattern = seq
     [Bol, Group 1 (Star (Cls is_space)),
      Opt (seq [Chr CHR ''-'', Plus (Cls is_space)]),
      lit ''uses:'', Plus (Cls is_space),
      Group 2 (Plus (Cls (\<lambda>c. \<not> (c = CHR ''@'' \<or> is_space c)))),
      Chr CHR ''@'',
      Group 3 (Plus (Cls (\<lambda>c. \<not> (is_space c \<or> c = CHR ''#'')))),
      Opt (seq [Star (Cls is_space), Chr CHR ''#'', Star (Cls is_space),
                Group 4 (Star (Cls (\<lambda>c. \<not> is_line_terminator c)))]),
      Eol], ignoreCase = False\<rparr>"

text \<open>\<open>/^([^\/]+\/[^\/]+)\/\.github\/workflows\/.*$/\<close>\<close>

definition REUSABLE_WORKFLOW_REGEX :: RegExp where
  "REUSABLE_WORKFLOW_REGEX = \<lparr>pattern = seq
     [Bol,
      Group 1 (seq [Plus (Cls (\<lambda>c. c \<noteq> CHR ''/'')), Chr CHR ''/'',
                    Plus (Cls (\<lambda>c. c \<noteq> CHR ''/''))]),
      lit ''/.github/workflows/'',
      Star (Cls (\<lambda>c. \<not> is_line_terminator c)), Eol], ignoreCase = False\<rparr>"

text \<open>\<open>/^([^\/]+\/[^\/]+)\/(.+)$/\<close>\<close>

definition SUB_ACTION_REGEX :: RegExp where
  "SUB_ACTION_REGEX = \<lparr>pattern = seq
     [Bol,
      Group 1 (seq [Plus (Cls (\<lambda>c. c \<noteq> CHR ''/'')), Chr CHR ''/'',
                    Plus (Cls (\<lambda>c. c \<noteq> CHR ''/''))]),
      Chr CHR ''/'',
      Group 2 (Plus (Cls (\<lambda>c. \<not> is_line_terminator c))), Eol], ignoreCase = False\<rparr>"

text \<open>\<open>/skip-pinning/i\<close>\<close>

definition SKIP_PINNING_REGEX :: RegExp where
  "SKIP_PINNING_REGEX = \<lparr>pattern = lit ''skip-pinning'', ignoreCase = True\<rparr>"

text \<open>
  The repository of a path (the lines of \<open>parseWorkflow\<close> from
  \<open>let repository = fullPath.trim()\<close> to the end of the \<open>if\<close>).
\<close>

definition derive_repository :: "string \<Rightarrow> string" where
  "derive_repository fullPath' =
     (let reusableWorkflowMatch = js_match fullPath' REUSABLE_WORKFLOW_REGEX;
          subActionMatch = js_match fullPath' SUB_ACTION_REGEX
      in case reusableWorkflowMatch of
           Some m \<Rightarrow> group m 1
         | None \<Rightarrow>
             (case subActionMatch of
                Some m \<Rightarrow>
                  if \<not> js_includes fullPath' ''.github/workflows'' then group m 1
                  else trim fullPath'
              | None \<Rightarrow> trim fullPath'))"

text \<open>The body of the loop of \<open>parseWorkflow\<close> for the line \<open>line'\<close> at index \<open>i\<close>.\<close>

definition parse_line :: "nat \<Rightarrow> string \<Rightarrow> WorkflowAction option" where
  "parse_line i line' =
     (case js_match line' ACTION_REGEX of
        None \<Rightarrow> None
      | Some m \<Rightarrow>
          let indentation' = group m 1;
              fullPath' = group m 2;
              ref = group m 3;
              comment = (case m 4 of Some c \<Rightarrow> c | None \<Rightarrow> []);
              hasSkipPinning' = js_test SKIP_PINNING_REGEX comment
          in Some \<lparr>line = int i, original = line',
                    repository = derive_repository fullPath',
                    fullPath = trim fullPath', currentRef = trim ref,
                    currentComment = trim comment, hasSkipPinning = hasSkipPinning',
                    indentation = indentation'\<rparr>)"

fun parse_lines :: "nat \<Rightarrow> string list \<Rightarrow> WorkflowAction list" where
  "parse_lines i [] = []"
| "parse_lines i (l # ls) =
     (case parse_line i l of
        Some action \<Rightarrow> action # parse_lines (Suc i) ls
      | None \<Rightarrow> parse_lines (Suc i) ls)"

definition parseWorkflow :: "string \<Rightarrow> WorkflowAction list" where
  "parseWorkflow content = parse_lines 0 (js_split LF content)"

section \<open>Rewriting (WorkflowParser.updateActionLine, WorkflowParser.applyUpdates)\<close>

definition updateActionLine :: "WorkflowAction \<Rightarrow> string \<Rightarrow> string \<Rightarrow> string" where
  "updateActionLine action newVersion' newCommit' =
     (if hasSkipPinning action then original action
      else
        let standardizedComment = ''tag '' @ newVersion';
            isDashFormat = js_includes (original action) ''- uses:''
        in if isDashFormat
           then indentation action @ ''- uses: '' @ fullPath action @ ''@'' @ newCommit'
                  @ '' # '' @ standardizedComment
           else indentation action @ ''uses: '' @ fullPath action @ ''@'' @ newCommit'
                  @ '' # '' @ standardizedComment)"

definition apply_one :: "UpdateResult \<Rightarrow> string list \<Rightarrow> string list" where
  "apply_one update lines =
     (if u_line update < int (length lines)
      then array_set lines (u_line update) (updated update)
      else lines)"

definition applyUpdates :: "string \<Rightarrow> UpdateResult list \<Rightarrow> string" where
  "applyUpdates content updates =
     (let lines = js_split LF content;
          sortedUpdates = js_sort (\<lambda>a b. u_line b - u_line a) updates
      in js_join [LF] (fold apply_one sortedUpdates lines))"

section \<open>Versions (WorkflowParser.extractVersionFromComment and the following methods)\<close>

text \<open>\<open>/(?:tag\s+)?(v?\d+\.\d+\.\d+(?:[.-]\w+)*)/i\<close>\<close>

definition VERSION_REGEX :: RegExp where
  "VERSION_REGEX = \<lparr>pattern = seq
     [Opt (seq [lit ''tag'', Plus (Cls is_space)]),
      Group 1 (seq [Opt (Chr CHR ''v''), Plus (Cls is_digit), Chr CHR ''.'',
                    Plus (Cls is_digit), Chr CHR ''.'', Plus (Cls is_digit),
                    Star (seq [Cls (\<lambda>c. c = CHR ''.'' \<or> c = CHR ''-''),
                               Plus (Cls is_word)])])], ignoreCase = True\<rparr>"

definition extractVersionFromComment :: "string \<Rightarrow> string" where
  "extractVersionFromComment comment =
     (case js_match comment VERSION_REGEX of Some versionMatch \<Rightarrow> group versionMatch 1
      | None \<Rightarrow> [])"

definition normalizeVersion :: "string \<Rightarrow> string" where
  "normalizeVersion version =
     (if version = [] then []
      else if startsWith version ''v'' then version else ''v'' @ version)"

definition areVersionsEqual :: "string \<Rightarrow> string \<Rightarrow> bool" where
  "areVersionsEqual version1 version2 = (normalizeVersion version1 = normalizeVersion version2)"

section \<open>Version resolution (githubApi.ts)\<close>

record GitHubTag =
  name :: string
  commit_sha :: string

record GitHubRelease =
  tag_name :: string
  target_commitish :: string
  prerelease :: bool

text \<open>
  The interface \<open>ActionUpdate\<close>; its field \<open>repository\<close> is \<open>au_repository\<close> here.
\<close>

record ActionUpdate =
  currentVersion :: string
  latestVersion :: string
  latestCommit :: string
  au_repository :: string

text \<open>
  An error is the message of the \<open>Error\<close> thrown; a function that can throw returns
  \<open>Inl\<close> of the message.
\<close>

type_synonym error = string

text \<open>
  The field \<open>object\<close> of a Git reference (\<open>tagRef.object\<close>): its type, hash and URL.
\<close>

record GitObject =
  obj_type :: string
  obj_sha :: string
  obj_url :: string

text \<open>
  The network: what \<open>makeRequest(url)\<close> resolves to (\<open>Inr\<close>) or rejects with
  (\<open>Inl\<close>), read at the type the caller gives the parsed JSON: a list of releases, a
  list of tags, the \<open>object\<close> of a tag reference, the \<open>object.sha\<close> of a tag object,
  the \<open>default_branch\<close> of a repository (\<open>None\<close> when the field is missing or null),
  the \<open>sha\<close> of a commit. A response that lacks a field the caller reads is a
  rejection: reading it throws inside the same \<open>try\<close> block.
\<close>

record GitHubApi =
  releases_at :: "string \<Rightarrow> error + GitHubRelease list"
  tags_at :: "string \<Rightarrow> error + GitHubTag list"
  ref_at :: "string \<Rightarrow> error + GitObject"
  tag_object_at :: "string \<Rightarrow> error + string"
  repo_at :: "string \<Rightarrow> error + string option"
  commit_at :: "string \<Rightarrow> error + string"

text \<open>
  The two functions of the npm package \<open>semver\<close> that the service calls. The package
  is a dependency, not code of the repository, so the service is modelled for any pair
  of them: \<open>valid\<close> as the truth value of \<open>semver.valid(tag)\<close>, \<open>rcompare\<close> as
  \<open>semver.rcompare\<close>.
\<close>

record Semver =
  valid :: "string \<Rightarrow> bool"
  rcompare :: "string \<Rightarrow> string \<Rightarrow> int"

definition getReleases :: "GitHubApi \<Rightarrow> string \<Rightarrow> error + GitHubRelease list" where
  "getReleases api repository' =
     releases_at api (''https://api.github.com/repos/'' @ repository' @ ''/releases'')"

definition getTags :: "GitHubApi \<Rightarrow> string \<Rightarrow> error + GitHubTag list" where
  "getTags api repository' =
     tags_at api (''https://api.github.com/repos/'' @ repository' @ ''/tags'')"

text \<open>
  \<open>getCommitForTag\<close>. The \<open>catch\<close> block is \<open>commit_from_tags\<close>: it is entered when
  the request for the reference or the request for the tag object is rejected.
\<close>

definition commit_from_tags :: "GitHubApi \<Rightarrow> string \<Rightarrow> string \<Rightarrow> error + string" where
  "commit_from_tags api repository' tagName =
     (case getTags api repository' of
        Inl e \<Rightarrow> Inl e
      | Inr tags \<Rightarrow>
          Inr (case find (\<lambda>t. name t = tagName) tags of
                 Some tag \<Rightarrow> if commit_sha tag \<noteq> [] then commit_sha tag else []
               | None \<Rightarrow> []))"

definition getCommitForTag :: "GitHubApi \<Rightarrow> string \<Rightarrow> string \<Rightarrow> error + string" where
  "getCommitForTag api repository' tagName =
     (let url = ''https://api.github.com/repos/'' @ repository' @ ''/git/refs/tags/'' @ tagName
      in case ref_at api url of
           Inl e \<Rightarrow> commit_from_tags api repository' tagName
         | Inr tagRef \<Rightarrow>
             if obj_type tagRef = ''tag''
             then (case tag_object_at api (obj_url tagRef) of
                     Inl e \<Rightarrow> commit_from_tags api repository' tagName
                   | Inr sha \<Rightarrow> Inr sha)
             else Inr (obj_sha tagRef))"

definition getDefaultBranch :: "GitHubApi \<Rightarrow> string \<Rightarrow> error + string" where
  "getDefaultBranch api repository' =
     (case repo_at api (''https://api.github.com/repos/'' @ repository') of
        Inl e \<Rightarrow> Inl e
      | Inr default_branch \<Rightarrow>
          Inr (case default_branch of
                 Some b \<Rightarrow> if b \<noteq> [] then b else ''main''
               | None \<Rightarrow> ''main''))"

definition getLatestCommit :: "GitHubApi \<Rightarrow> string \<Rightarrow> string \<Rightarrow> error + string" where
  "getLatestCommit api repository' branch =
     commit_at api (''https://api.github.com/repos/'' @ repository' @ ''/commits/'' @ branch)"

definition findLatestSemverRelease :: "Semver \<Rightarrow> GitHubRelease list \<Rightarrow> GitHubRelease option" where
  "findLatestSemverRelease semver releases =
     (let validReleases =
            js_sort (\<lambda>a b. rcompare semver (tag_name a) (tag_name b))
              (filter (\<lambda>release. valid semver (tag_name release))
                 (filter (\<lambda>release. \<not> prerelease release) releases))
      in case validReleases of [] \<Rightarrow> None | r # _ \<Rightarrow> Some r)"

definition findLatestSemverTag :: "Semver \<Rightarrow> GitHubTag list \<Rightarrow> GitHubTag option" where
  "findLatestSemverTag semver tags =
     (let validTags =
            js_sort (\<lambda>a b. rcompare semver (name a) (name b))
              (filter (\<lambda>tag. valid semver (name tag)) tags)
      in case validTags of [] \<Rightarrow> None | t # _ \<Rightarrow> Some t)"

text \<open>
  \<open>getLatestActionVersion\<close>, in the three parts of its \<open>try\<close> block. \<open>branch_tier\<close>
  is the part from the comment "Final fallback", \<open>tags_tier\<close> the part from the comment
  "Fallback to tags", \<open>releases_tier\<close> the whole block.
\<close>

definition branch_tier :: "GitHubApi \<Rightarrow> string \<Rightarrow> error + ActionUpdate" where
  "branch_tier api repository' =
     (case getDefaultBranch api repository' of
        Inl e \<Rightarrow> Inl e
      | Inr defaultBranch \<Rightarrow>
          (case getLatestCommit api repository' defaultBranch of
             Inl e \<Rightarrow> Inl e
           | Inr sha \<Rightarrow>
               Inr \<lparr>currentVersion = [], latestVersion = defaultBranch,
                    latestCommit = sha, au_repository = repository'\<rparr>))"

definition tags_tier :: "Semver \<Rightarrow> GitHubApi \<Rightarrow> string \<Rightarrow> error + ActionUpdate" where
  "tags_tier semver api repository' =
     (case getTags api repository' of
        Inl e \<Rightarrow> Inl e
      | Inr tags \<Rightarrow>
          if length tags > 0
          then (case findLatestSemverTag semver tags of
                  Some latestTag \<Rightarrow>
                    Inr \<lparr>currentVersion = [], latestVersion = name latestTag,
                         latestCommit = commit_sha latestTag, au_repository = repository'\<rparr>
                | None \<Rightarrow>
                    let mostRecentTag = hd tags
                    in Inr \<lparr>currentVersion = [], latestVersion = name mostRecentTag,
                            latestCommit = commit_sha mostRecentTag,
                            au_repository = repository'\<rparr>)
          else branch_tier api repository')"

definition releases_tier :: "Semver \<Rightarrow> GitHubApi \<Rightarrow> string \<Rightarrow> error + ActionUpdate" where
  "releases_tier semver api repository' =
     (case getReleases api repository' of
        Inl e \<Rightarrow> Inl e
      | Inr releases \<Rightarrow>
          (case (if length releases > 0 then findLatestSemverRelease semver releases else None) of
             Some latestRelease \<Rightarrow>
               (case getCommitForTag api repository' (tag_name latestRelease) of
                  Inl e \<Rightarrow> Inl e
                | Inr sha \<Rightarrow>
                    Inr \<lparr>currentVersion = [], latestVersion = tag_name latestRelease,
                         latestCommit = sha, au_repository = repository'\<rparr>)
           | None \<Rightarrow> tags_tier semver api repository'))"

definition getLatestActionVersion :: "Semver \<Rightarrow> GitHubApi \<Rightarrow> string \<Rightarrow> error + ActionUpdate" where
  "getLatestActionVersion semver api repository' =
     (case releases_tier semver api repository' of
        Inl e \<Rightarrow>
          Inl (''Failed to get latest version for '' @ repository' @ '': Error: '' @ e)
      | Inr update \<Rightarrow> Inr update)"

section \<open>The update command (extension.ts)\<close>

text \<open>
  The body of \<open>if (updateInfo)\<close> in the loop of \<open>updateWorkflowCommand\<close>: \<open>None\<close>
  is the \<open>continue\<close> of an action that is up to date, \<open>Some\<close> the element pushed on
  \<open>updates\<close>.
\<close>

definition decide_update :: "WorkflowAction \<Rightarrow> ActionUpdate \<Rightarrow> UpdateResult option" where
  "decide_update action updateInfo =
     (let currentVersion' = extractVersionFromComment (currentComment action);
          isAlreadyPinned = (length (currentRef action) = 40);
          isSameVersion = areVersionsEqual currentVersion' (latestVersion updateInfo);
          isSameCommit = (currentRef action = latestCommit updateInfo)
      in if isAlreadyPinned \<and> (isSameVersion \<or> isSameCommit) then None
         else
           let updatedLine = updateActionLine action (latestVersion updateInfo)
                               (latestCommit updateInfo)
           in Some \<lparr>u_line = line action, u_original = original action,
                     updated = updatedLine, u_repository = repository action,
                     oldVersion = (if currentVersion' \<noteq> [] then currentVersion'
                                   else currentRef action),
                     newVersion = latestVersion updateInfo,
                     newCommit = latestCommit updateInfo\<rparr>)"

text \<open>
  The state of the loop: whether it was left by cancellation, the arrays \<open>updates\<close>
  and \<open>errors\<close>, and, as a trace, the actions for which
  \<open>githubApi.getLatestActionVersion\<close> has been called.
\<close>

record loop_state =
  cancelled :: bool
  updates :: "UpdateResult list"
  errors :: "string list"
  resolved_for :: "WorkflowAction list"

text \<open>
  One iteration of the \<open>for\<close> loop over \<open>actionsToUpdate\<close>, after the check of the
  cancellation token: the \<open>try\<close> block and its \<open>catch\<close>. \<open>resolve\<close> is
  \<open>githubApi.getLatestActionVersion\<close> (\<open>Inr None\<close> is its \<open>null\<close>).
\<close>

definition loop_body ::
  "(string \<Rightarrow> error + ActionUpdate option) \<Rightarrow> WorkflowAction \<Rightarrow> loop_state \<Rightarrow> loop_state" where
  "loop_body resolve action st =
     (let st' = st\<lparr>resolved_for := resolved_for st @ [action]\<rparr>
      in case resolve (repository action) of
           Inl e \<Rightarrow>
             st'\<lparr>errors := errors st' @
                   [''Failed to update '' @ repository action @ '': Error: '' @ e]\<rparr>
         | Inr None \<Rightarrow> st'
         | Inr (Some updateInfo) \<Rightarrow>
             (case decide_update action updateInfo of
                None \<Rightarrow> st'
              | Some update \<Rightarrow> st'\<lparr>updates := updates st' @ [update]\<rparr>))"

text \<open>
  The loop. \<open>isCancellationRequested i\<close> is what the cancellation token says when
  iteration \<open>i\<close> reads it; a cancellation leaves the loop and the command.
\<close>

fun process_actions ::
  "(string \<Rightarrow> error + ActionUpdate option) \<Rightarrow> (nat \<Rightarrow> bool) \<Rightarrow> nat \<Rightarrow>
   WorkflowAction list \<Rightarrow> loop_state \<Rightarrow> loop_state" where
  "process_actions resolve isCancellationRequested i [] st = st"
| "process_actions resolve isCancellationRequested i (action # rest) st =
     (if isCancellationRequested i then st\<lparr>cancelled := True\<rparr>
      else process_actions resolve isCancellationRequested (Suc i) rest
             (loop_body resolve action st))"

text \<open>
  The callback of \<open>withProgress\<close> in \<open>updateWorkflowCommand\<close>, from the parse of the
  document to the edit: the final loop state and the text of the document afterwards.
  The document is replaced only when the loop ran to its end with at least one update.
\<close>

definition update_workflow ::
  "(string \<Rightarrow> error + ActionUpdate option) \<Rightarrow> (nat \<Rightarrow> bool) \<Rightarrow> string \<Rightarrow>
   loop_state \<times> string" where
  "update_workflow resolve isCancellationRequested content =
     (let actions = parseWorkflow content;
          actionsToUpdate = filter (\<lambda>action. \<not> hasSkipPinning action) actions;
          st = process_actions resolve isCancellationRequested 0 actionsToUpdate
                 \<lparr>cancelled = False, updates = [], errors = [], resolved_for = []\<rparr>
      in if \<not> cancelled st \<and> length (updates st) > 0
         then (st, applyUpdates content (updates st))
         else (st, content))"

text \<open>
  For the statements about the loop: the element that the iteration for an action
  pushes on \<open>updates\<close>, if it pushes one.
\<close>

definition produced ::
  "(string \<Rightarrow> error + ActionUpdate option) \<Rightarrow> WorkflowAction \<Rightarrow> UpdateResult option" where
  "produced resolve a =
     (case resolve (repository a) of Inr (Some info) \<Rightarrow> decide_update a info | _ \<Rightarrow> None)"

section \<open>Properties of the string and array functions\<close>

lemma js_split_not_Nil: "js_split sep s \<noteq> []"
  by (induction s) (auto split: list.splits)

lemma js_join_split: "js_join [sep] (js_split sep s) = s"
proof (induction s)
  case Nil
  show ?case by simp
next
  case (Cons c cs)
  obtain l ls where ls: "js_split sep cs = l # ls"
    using js_split_not_Nil [of sep cs] by (cases "js_split sep cs") auto
  show ?case
  proof (cases "c = sep")
    case True
    with Cons ls show ?thesis by simp
  next
    case False
    with Cons ls show ?thesis by (cases ls) auto
  qed
qed

lemma js_split_append_sep:
  "sep \<notin> set l \<Longrightarrow> js_split sep (l @ sep # s) = l # js_split sep s"
  by (induction l) auto

lemma js_split_no_sep: "sep \<notin> set l \<Longrightarrow> js_split sep l = [l]"
  by (induction l) auto

lemma js_split_join:
  "ls \<noteq> [] \<Longrightarrow> \<forall>l\<in>set ls. sep \<notin> set l \<Longrightarrow> js_split sep (js_join [sep] ls) = ls"
proof (induction ls rule: induct_list012)
  case 1
  then show ?case by simp
next
  case (2 l)
  then show ?case by (simp add: js_split_no_sep)
next
  case (3 l m ls)
  then show ?case by (simp add: js_split_append_sep)
qed

lemma set_insert_by: "set (insert_by cmp x ys) = insert x (set ys)"
  by (induction ys) auto

lemma set_js_sort: "set (js_sort cmp xs) = set xs"
  by (induction xs) (auto simp: js_sort_def set_insert_by)

lemma length_apply_one: "length (apply_one u ls) = length ls"
  by (simp add: apply_one_def array_set_def)

lemma length_fold_apply_one: "length (fold apply_one us ls) = length ls"
  by (induction us arbitrary: ls) (auto simp: length_apply_one)

lemma nth_apply_one: "int i \<noteq> u_line u \<Longrightarrow> apply_one u ls ! i = ls ! i"
  by (auto simp: apply_one_def array_set_def)

lemma nth_fold_apply_one:
  "int i \<notin> u_line ` set us \<Longrightarrow> fold apply_one us ls ! i = ls ! i"
  by (induction us arbitrary: ls) (auto simp: nth_apply_one)

lemma set_apply_one: "set (apply_one u ls) \<subseteq> insert (updated u) (set ls)"
  using set_update_subset_insert [of ls "nat (u_line u)" "updated u"]
  by (auto simp: apply_one_def array_set_def)

lemma set_fold_apply_one: "set (fold apply_one us ls) \<subseteq> updated ` set us \<union> set ls"
proof (induction us arbitrary: ls)
  case Nil
  show ?case by simp
next
  case (Cons u us)
  have "set (fold apply_one us (apply_one u ls)) \<subseteq> updated ` set us \<union> set (apply_one u ls)"
    by (rule Cons.IH)
  with set_apply_one [of u ls] show ?case by auto
qed

lemma js_split_no_LF: "l \<in> set (js_split sep s) \<Longrightarrow> sep \<notin> set l"
proof (induction s arbitrary: l)
  case Nil
  then show ?case by simp
next
  case (Cons c cs)
  obtain k ks where ks: "js_split sep cs = k # ks"
    using js_split_not_Nil [of sep cs] by (cases "js_split sep cs") auto
  with Cons show ?case by (auto split: if_splits)
qed

section \<open>Properties of the matcher\<close>

lemmas ms_simps = ms.simps(1-7) ms.simps(9)

lemma seq_Nil: "seq [] = Eps"
  by (simp add: seq_def)

lemma seq_Cons: "seq (r # rs) = Seq r (seq rs)"
  by (simp add: seq_def)

lemma lit_Nil: "lit [] = Eps"
  by (simp add: lit_def seq_def)

lemma lit_Cons: "lit (c # cs) = Seq (Chr c) (lit cs)"
  by (simp add: lit_def seq_def)

lemma in_ms_Seq:
  "s' \<in> set (ms ic (Seq a b) s) \<longleftrightarrow> (\<exists>m\<in>set (ms ic a s). s' \<in> set (ms ic b m))"
  by (auto simp: ms_simps)

lemma in_ms_Opt: "s' \<in> set (ms ic (Opt a) s) \<longleftrightarrow> s' \<in> set (ms ic a s) \<or> s' = s"
  by (auto simp: Opt_def ms_simps)

lemma in_ms_Chr:
  "(p', r', c') \<in> set (ms False (Chr x) (pos, rest, caps)) \<longleftrightarrow>
     rest = x # r' \<and> p' = Suc pos \<and> c' = caps"
  by (cases rest) (auto simp: chr_eq_def ms_simps)

lemma in_ms_Cls:
  "(p', r', c') \<in> set (ms ic (Cls P) (pos, rest, caps)) \<longleftrightarrow>
     (\<exists>x. P x \<and> rest = x # r' \<and> p' = Suc pos \<and> c' = caps)"
  by (cases rest) (auto simp: ms_simps)

lemma ms_Star_Cls_Nil: "ms ic (Star (Cls P)) (pos, [], caps) = [(pos, [], caps)]"
  by (simp add: ms.simps(8) ms_simps)

lemma ms_Star_Cls_Cons:
  "ms ic (Star (Cls P)) (pos, x # xs, caps) =
     (if P x then ms ic (Star (Cls P)) (Suc pos, xs, caps) @ [(pos, x # xs, caps)]
      else [(pos, x # xs, caps)])"
  by (simp add: ms.simps(8) ms_simps)

lemma in_ms_Star_Cls:
  "(p', r', c') \<in> set (ms ic (Star (Cls P)) (pos, rest, caps)) \<longleftrightarrow>
     (\<exists>w. (\<forall>x\<in>set w. P x) \<and> rest = w @ r' \<and> p' = pos + length w \<and> c' = caps)"
proof (induction rest arbitrary: pos)
  case Nil
  show ?case by (auto simp only: ms_Star_Cls_Nil) auto
next
  case (Cons x xs)
  show ?case
  proof (cases "P x")
    case False
    then show ?thesis
      by (auto simp only: ms_Star_Cls_Cons) (auto simp: Cons_eq_append_conv)
  next
    case True
    have "(p', r', c') \<in> set (ms ic (Star (Cls P)) (pos, x # xs, caps)) \<longleftrightarrow>
          (p', r', c') \<in> set (ms ic (Star (Cls P)) (Suc pos, xs, caps)) \<or>
          (p', r', c') = (pos, x # xs, caps)"
      using True by (simp only: ms_Star_Cls_Cons) auto
    also have "\<dots> \<longleftrightarrow> (\<exists>w. (\<forall>x\<in>set w. P x) \<and> xs = w @ r' \<and> p' = Suc pos + length w \<and> c' = caps)
          \<or> (p', r', c') = (pos, x # xs, caps)"
      by (simp only: Cons.IH)
    also have "\<dots> \<longleftrightarrow> (\<exists>w. (\<forall>x\<in>set w. P x) \<and> x # xs = w @ r' \<and> p' = pos + length w \<and> c' = caps)"
    proof
      assume "(\<exists>w. (\<forall>x\<in>set w. P x) \<and> xs = w @ r' \<and> p' = Suc pos + length w \<and> c' = caps)
          \<or> (p', r', c') = (pos, x # xs, caps)"
      then show "\<exists>w. (\<forall>x\<in>set w. P x) \<and> x # xs = w @ r' \<and> p' = pos + length w \<and> c' = caps"
      proof
        assume "\<exists>w. (\<forall>x\<in>set w. P x) \<and> xs = w @ r' \<and> p' = Suc pos + length w \<and> c' = caps"
        then obtain w where "\<forall>x\<in>set w. P x" "xs = w @ r'" "p' = Suc pos + length w" "c' = caps"
          by blast
        with True have "(\<forall>y\<in>set (x # w). P y) \<and> x # xs = (x # w) @ r'
            \<and> p' = pos + length (x # w) \<and> c' = caps" by simp
        then show ?thesis by blast
      next
        assume "(p', r', c') = (pos, x # xs, caps)"
        then have "(\<forall>y\<in>set []. P y) \<and> x # xs = [] @ r' \<and> p' = pos + length ([] :: string) \<and> c' = caps"
          by simp
        then show ?thesis by blast
      qed
    next
      assume "\<exists>w. (\<forall>x\<in>set w. P x) \<and> x # xs = w @ r' \<and> p' = pos + length w \<and> c' = caps"
      then obtain w where w: "\<forall>x\<in>set w. P x" "x # xs = w @ r'" "p' = pos + length w" "c' = caps"
        by blast
      show "(\<exists>w. (\<forall>x\<in>set w. P x) \<and> xs = w @ r' \<and> p' = Suc pos + length w \<and> c' = caps)
          \<or> (p', r', c') = (pos, x # xs, caps)"
      proof (cases w)
        case Nil
        with w show ?thesis by simp
      next
        case (Cons y ys)
        with w have "(\<forall>x\<in>set ys. P x) \<and> xs = ys @ r' \<and> p' = Suc pos + length ys \<and> c' = caps"
          by simp
        then show ?thesis by blast
      qed
    qed
    finally show ?thesis .
  qed
qed

lemma in_ms_Plus_Cls:
  "(p', r', c') \<in> set (ms ic (Plus (Cls P)) (pos, rest, caps)) \<longleftrightarrow>
     (\<exists>w. w \<noteq> [] \<and> (\<forall>x\<in>set w. P x) \<and> rest = w @ r' \<and> p' = pos + length w \<and> c' = caps)"
proof -
  have "(p', r', c') \<in> set (ms ic (Plus (Cls P)) (pos, rest, caps)) \<longleftrightarrow>
        (\<exists>m\<in>set (ms ic (Cls P) (pos, rest, caps)). (p', r', c') \<in> set (ms ic (Star (Cls P)) m))"
    unfolding Plus_def by (rule in_ms_Seq)
  also have "\<dots> \<longleftrightarrow> (\<exists>x xs. P x \<and> rest = x # xs \<and>
        (p', r', c') \<in> set (ms ic (Star (Cls P)) (Suc pos, xs, caps)))"
    by (cases rest) (auto simp: ms_simps)
  also have "\<dots> \<longleftrightarrow> (\<exists>x xs. P x \<and> rest = x # xs \<and>
        (\<exists>w. (\<forall>x\<in>set w. P x) \<and> xs = w @ r' \<and> p' = Suc pos + length w \<and> c' = caps))"
    by (simp only: in_ms_Star_Cls)
  also have "\<dots> \<longleftrightarrow>
     (\<exists>w. w \<noteq> [] \<and> (\<forall>x\<in>set w. P x) \<and> rest = w @ r' \<and> p' = pos + length w \<and> c' = caps)"
  proof
    assume "\<exists>x xs. P x \<and> rest = x # xs \<and>
        (\<exists>w. (\<forall>x\<in>set w. P x) \<and> xs = w @ r' \<and> p' = Suc pos + length w \<and> c' = caps)"
    then obtain x xs w where "P x" "rest = x # xs" "\<forall>x\<in>set w. P x" "xs = w @ r'"
      "p' = Suc pos + length w" "c' = caps" by blast
    then have "x # w \<noteq> [] \<and> (\<forall>y\<in>set (x # w). P y) \<and> rest = (x # w) @ r'
       \<and> p' = pos + length (x # w) \<and> c' = caps" by simp
    then show "\<exists>w. w \<noteq> [] \<and> (\<forall>x\<in>set w. P x) \<and> rest = w @ r' \<and> p' = pos + length w \<and> c' = caps"
      by blast
  next
    assume "\<exists>w. w \<noteq> [] \<and> (\<forall>x\<in>set w. P x) \<and> rest = w @ r' \<and> p' = pos + length w \<and> c' = caps"
    then obtain w where w: "w \<noteq> []" "\<forall>x\<in>set w. P x" "rest = w @ r'" "p' = pos + length w" "c' = caps"
      by blast
    then obtain y ys where "w = y # ys" by (cases w) auto
    with w have "P y \<and> rest = y # (ys @ r') \<and>
        ((\<forall>x\<in>set ys. P x) \<and> ys @ r' = ys @ r' \<and> p' = Suc pos + length ys \<and> c' = caps)"
      by simp
    then show "\<exists>x xs. P x \<and> rest = x # xs \<and>
        (\<exists>w. (\<forall>x\<in>set w. P x) \<and> xs = w @ r' \<and> p' = Suc pos + length w \<and> c' = caps)"
      by blast
  qed
  finally show ?thesis .
qed

lemma in_ms_lit:
  "(p', r', c') \<in> set (ms False (lit str) (pos, rest, caps)) \<longleftrightarrow>
     rest = str @ r' \<and> p' = pos + length str \<and> c' = caps"
proof (induction str arbitrary: pos rest)
  case Nil
  show ?case by (auto simp: lit_Nil ms_simps)
next
  case (Cons x xs)
  show ?case
    by (cases rest) (auto simp: lit_Cons chr_eq_def Cons.IH ms_simps)
qed

lemma in_ms_Group:
  "(p', r', c') \<in> set (ms ic (Group n a) (pos, rest, caps)) \<longleftrightarrow>
     (\<exists>c''. (p', r', c'') \<in> set (ms ic a (pos, rest, caps)) \<and>
            c' = c''(n \<mapsto> take (p' - pos) rest))"
  by (force simp: ms_simps)

lemma in_ms_Eol:
  "(p', r', c') \<in> set (ms ic Eol (pos, rest, caps)) \<longleftrightarrow> rest = [] \<and> r' = [] \<and> p' = pos \<and> c' = caps"
  by (auto simp: ms_simps)

lemma in_ms_Bol:
  "(p', r', c') \<in> set (ms ic Bol (pos, rest, caps)) \<longleftrightarrow> pos = 0 \<and> r' = rest \<and> p' = pos \<and> c' = caps"
  by (auto simp: ms_simps)

lemma in_ms_Eps: "s' \<in> set (ms ic Eps s) \<longleftrightarrow> s' = s"
  by (auto simp: ms_simps)

lemma in_ms_Seq3:
  "s' \<in> set (ms ic (Seq a b) s) \<longleftrightarrow>
     (\<exists>p r c. (p, r, c) \<in> set (ms ic a s) \<and> s' \<in> set (ms ic b (p, r, c)))"
  by (auto simp: ms_simps)

lemma in_ms_owner_repo:
  "(p', r', c') \<in> set (ms False (seq [Plus (Cls P), Chr x, Plus (Cls P)]) (pos, rest, caps)) \<longleftrightarrow>
     (\<exists>owner repo. owner \<noteq> [] \<and> (\<forall>x\<in>set owner. P x) \<and> repo \<noteq> [] \<and> (\<forall>x\<in>set repo. P x) \<and>
        rest = owner @ x # repo @ r' \<and> p' = pos + length owner + 1 + length repo \<and> c' = caps)"
  apply (simp add: seq_Cons seq_Nil in_ms_Seq3 in_ms_Plus_Cls in_ms_Chr in_ms_Eps)
  apply (rule iffI)
   apply (elim exE conjE)
   apply (intro exI conjI; simp; fail)
  apply (elim exE conjE)
  apply (intro exI conjI; simp; fail)
   done


lemma ms_SeqI:
  "(p, r, c) \<in> set (ms ic a s) \<Longrightarrow> s' \<in> set (ms ic b (p, r, c)) \<Longrightarrow> s' \<in> set (ms ic (Seq a b) s)"
  by (auto simp: ms_simps)

lemma ms_Star_ClsI:
  "\<forall>x\<in>set w. P x \<Longrightarrow> (pos + length w, r', caps) \<in> set (ms ic (Star (Cls P)) (pos, w @ r', caps))"
  unfolding in_ms_Star_Cls by blast

lemma ms_Plus_ClsI:
  "w \<noteq> [] \<Longrightarrow> \<forall>x\<in>set w. P x \<Longrightarrow>
   (pos + length w, r', caps) \<in> set (ms ic (Plus (Cls P)) (pos, w @ r', caps))"
  unfolding in_ms_Plus_Cls by blast

lemma ms_litI: "(pos + length str, r', caps) \<in> set (ms False (lit str) (pos, str @ r', caps))"
  unfolding in_ms_lit by simp

lemma ms_ChrI: "(Suc pos, r', caps) \<in> set (ms False (Chr x) (pos, x # r', caps))"
  unfolding in_ms_Chr by simp

lemma ms_GroupI:
  "(p', r', c'') \<in> set (ms ic a (pos, rest, caps)) \<Longrightarrow>
   (p', r', c''(n \<mapsto> take (p' - pos) rest)) \<in> set (ms ic (Group n a) (pos, rest, caps))"
  unfolding in_ms_Group by blast

lemma ms_EolI: "(pos, [], caps) \<in> set (ms ic Eol (pos, [], caps))"
  by (simp add: ms_simps)

lemma ms_BolI: "(0, rest, caps) \<in> set (ms ic Bol (0, rest, caps))"
  by (simp add: ms_simps)

lemma ms_EpsI: "s \<in> set (ms ic Eps s)"
  by (simp add: ms_simps)

lemma ms_owner_repoI:
  assumes "owner \<noteq> []" "\<forall>x\<in>set owner. P x" "repo \<noteq> []" "\<forall>x\<in>set repo. P x"
  shows "(pos + length owner + 1 + length repo, r', caps)
           \<in> set (ms False (seq [Plus (Cls P), Chr x, Plus (Cls P)]) (pos, owner @ x # repo @ r', caps))"
  unfolding in_ms_owner_repo using assms by blast

lemma search_from_Bol_pos:
  "0 < pos \<Longrightarrow> search_from ic (Seq Bol r) pos rest = None"
  by (induction rest arbitrary: pos) (auto simp: ms_simps)

lemma search_from_anchored:
  "search_from ic (Seq Bol r) 0 s =
     (case ms ic (Seq Bol r) (0, s, Map.empty) of [] \<Rightarrow> None | (p, r', c) # _ \<Rightarrow> Some c)"
proof (cases s)
  case Nil
  then show ?thesis by (simp split: list.splits prod.splits)
next
  case (Cons x xs)
  have "search_from ic (Seq Bol r) (Suc 0) xs = None"
    by (rule search_from_Bol_pos) simp
  with Cons show ?thesis
    by (simp split: list.splits prod.splits)
qed

lemma reusable_sound:
  assumes "(p', r', c') \<in> set (ms False (pattern REUSABLE_WORKFLOW_REGEX) (0, path, Map.empty))"
  shows "\<exists>owner repo file. owner \<noteq> [] \<and> (\<forall>x\<in>set owner. x \<noteq> CHR ''/'') \<and>
        repo \<noteq> [] \<and> (\<forall>x\<in>set repo. x \<noteq> CHR ''/'') \<and>
        (\<forall>x\<in>set file. \<not> is_line_terminator x) \<and>
        path = owner @ ''/'' @ repo @ ''/.github/workflows/'' @ file \<and>
        c' = [1 \<mapsto> owner @ ''/'' @ repo]"
  using assms unfolding REUSABLE_WORKFLOW_REGEX_def
  apply (simp add: seq_Cons [of Bol] seq_Cons [of "Group _ _"] seq_Cons [of "lit _"] seq_Cons [of "Star _"]
     seq_Cons [of Eol] seq_Nil in_ms_Seq3 in_ms_Group in_ms_owner_repo in_ms_lit
     in_ms_Star_Cls in_ms_Eol in_ms_Bol in_ms_Eps)
  apply (elim exE conjE)
  apply (intro exI conjI; simp; fail)
  done

lemma reusable_complete:
  assumes "owner \<noteq> []" "\<forall>x\<in>set owner. x \<noteq> CHR ''/''" "repo \<noteq> []" "\<forall>x\<in>set repo. x \<noteq> CHR ''/''"
    and "\<forall>x\<in>set file. \<not> is_line_terminator x"
    and "path = owner @ ''/'' @ repo @ ''/.github/workflows/'' @ file"
  shows "ms False (pattern REUSABLE_WORKFLOW_REGEX) (0, path, Map.empty) \<noteq> []"
proof -
  let ?n = "0 + length owner + 1 + length repo"
  let ?c = "Map.empty(1 \<mapsto> take (?n - 0) path)"
  have 1: "(?n, ''/.github/workflows/'' @ file, Map.empty)
      \<in> set (ms False (seq [Plus (Cls (\<lambda>c. c \<noteq> CHR ''/'')), Chr CHR ''/'',
                    Plus (Cls (\<lambda>c. c \<noteq> CHR ''/''))]) (0, path, Map.empty))"
    unfolding assms(6) using assms(1-4) ms_owner_repoI [where x = "CHR ''/''" and pos = 0 and owner = owner and repo = repo] by simp
  have 2: "(?n, ''/.github/workflows/'' @ file, ?c)
      \<in> set (ms False (Group 1 (seq [Plus (Cls (\<lambda>c. c \<noteq> CHR ''/'')), Chr CHR ''/'',
                    Plus (Cls (\<lambda>c. c \<noteq> CHR ''/''))])) (0, path, Map.empty))"
    by (rule ms_GroupI [OF 1])
  have 3: "(?n + length ''/.github/workflows/'', file, ?c)
      \<in> set (ms False (lit ''/.github/workflows/'') (?n, ''/.github/workflows/'' @ file, ?c))"
    by (rule ms_litI)
  have 4: "(?n + length ''/.github/workflows/'' + length file, [], ?c)
      \<in> set (ms False (Star (Cls (\<lambda>c. \<not> is_line_terminator c)))
           (?n + length ''/.github/workflows/'', file, ?c))"
    using ms_Star_ClsI [OF assms(5), where r' = "[]" and ic = False and caps = ?c
        and pos = "?n + length ''/.github/workflows/''"]
    by (simp only: append_Nil2)
  have 5: "(?n + length ''/.github/workflows/'' + length file, [], ?c)
      \<in> set (ms False (seq [Eol]) (?n + length ''/.github/workflows/'' + length file, [], ?c))"
    unfolding seq_Cons seq_Nil by (rule ms_SeqI [OF ms_EolI ms_EpsI])
  have "(?n + length ''/.github/workflows/'' + length file, [], ?c)
      \<in> set (ms False (pattern REUSABLE_WORKFLOW_REGEX) (0, path, Map.empty))"
    unfolding REUSABLE_WORKFLOW_REGEX_def RegExp.simps
    unfolding seq_Cons [of Bol] seq_Cons [of "Group _ _"] seq_Cons [of "lit _"] seq_Cons [of "Star _"]
    by (rule ms_SeqI [OF ms_BolI ms_SeqI [OF 2 ms_SeqI [OF 3 ms_SeqI [OF 4 5]]]])
  then show ?thesis by auto
qed


lemma sub_action_sound:
  assumes "(p', r', c') \<in> set (ms False (pattern SUB_ACTION_REGEX) (0, path, Map.empty))"
  shows "\<exists>owner repo rest. owner \<noteq> [] \<and> (\<forall>x\<in>set owner. x \<noteq> CHR ''/'') \<and>
        repo \<noteq> [] \<and> (\<forall>x\<in>set repo. x \<noteq> CHR ''/'') \<and>
        rest \<noteq> [] \<and> (\<forall>x\<in>set rest. \<not> is_line_terminator x) \<and>
        path = owner @ ''/'' @ repo @ ''/'' @ rest \<and>
        c' = [1 \<mapsto> owner @ ''/'' @ repo, 2 \<mapsto> rest]"
  using assms unfolding SUB_ACTION_REGEX_def
  apply (simp add: seq_Cons [of Bol] seq_Cons [of "Group _ _"] seq_Cons [of "Chr _"]
     seq_Cons [of Eol] seq_Nil in_ms_Seq3 in_ms_Group in_ms_owner_repo in_ms_Chr
     in_ms_Plus_Cls in_ms_Eol in_ms_Bol in_ms_Eps)
  apply (elim exE conjE)
  apply (intro exI conjI; simp; fail)
  done

lemma sub_action_complete:
  assumes "owner \<noteq> []" "\<forall>x\<in>set owner. x \<noteq> CHR ''/''" "repo \<noteq> []" "\<forall>x\<in>set repo. x \<noteq> CHR ''/''"
    and "rest \<noteq> []" "\<forall>x\<in>set rest. \<not> is_line_terminator x"
    and "path = owner @ ''/'' @ repo @ ''/'' @ rest"
  shows "ms False (pattern SUB_ACTION_REGEX) (0, path, Map.empty) \<noteq> []"
proof -
  let ?n = "0 + length owner + 1 + length repo"
  let ?c = "Map.empty(1 \<mapsto> take (?n - 0) path)"
  let ?d = "?c(2 \<mapsto> take (Suc ?n + length rest - Suc ?n) rest)"
  have 1: "(?n, ''/'' @ rest, Map.empty)
      \<in> set (ms False (seq [Plus (Cls (\<lambda>c. c \<noteq> CHR ''/'')), Chr CHR ''/'',
                    Plus (Cls (\<lambda>c. c \<noteq> CHR ''/''))]) (0, path, Map.empty))"
    unfolding assms(7) using assms(1-4)
      ms_owner_repoI [where x = "CHR ''/''" and pos = 0 and owner = owner and repo = repo]
    by simp
  have 2: "(?n, ''/'' @ rest, ?c)
      \<in> set (ms False (Group 1 (seq [Plus (Cls (\<lambda>c. c \<noteq> CHR ''/'')), Chr CHR ''/'',
                    Plus (Cls (\<lambda>c. c \<noteq> CHR ''/''))])) (0, path, Map.empty))"
    by (rule ms_GroupI [OF 1])
  have 3: "(Suc ?n, rest, ?c) \<in> set (ms False (Chr CHR ''/'') (?n, ''/'' @ rest, ?c))"
    using ms_ChrI [where pos = ?n and r' = rest and caps = ?c and x = "CHR ''/''"]
    by (simp only: append_Cons append_Nil)
  have "(Suc ?n + length rest, [], ?c)
      \<in> set (ms False (Plus (Cls (\<lambda>c. \<not> is_line_terminator c))) (Suc ?n, rest, ?c))"
    using ms_Plus_ClsI [OF assms(5,6), where r' = "[]" and ic = False and caps = ?c and pos = "Suc ?n"]
    by (simp only: append_Nil2)
  then have 4: "(Suc ?n + length rest, [], ?d)
      \<in> set (ms False (Group 2 (Plus (Cls (\<lambda>c. \<not> is_line_terminator c)))) (Suc ?n, rest, ?c))"
    by (rule ms_GroupI)
  have 5: "(Suc ?n + length rest, [], ?d)
      \<in> set (ms False (seq [Eol]) (Suc ?n + length rest, [], ?d))"
    unfolding seq_Cons seq_Nil by (rule ms_SeqI [OF ms_EolI ms_EpsI])
  have "(Suc ?n + length rest, [], ?d)
      \<in> set (ms False (pattern SUB_ACTION_REGEX) (0, path, Map.empty))"
    unfolding SUB_ACTION_REGEX_def RegExp.simps
    unfolding seq_Cons [of Bol] seq_Cons [of "Group _ _"] seq_Cons [of "Chr _"]
    by (rule ms_SeqI [OF ms_BolI ms_SeqI [OF 2 ms_SeqI [OF 3 ms_SeqI [OF 4 5]]]])
  then show ?thesis by auto
qed

lemma seq_BolE:
  assumes "s' \<in> set (ms ic (seq (Bol # rs)) (0, rest, caps))"
  shows "s' \<in> set (ms ic (seq rs) (0, rest, caps))"
  using assms unfolding seq_Cons in_ms_Seq3 in_ms_Bol by blast

lemma seq_StarE:
  assumes "s' \<in> set (ms ic (seq (Star (Cls P) # rs)) (pos, rest, caps))"
  obtains w r n where "\<forall>x\<in>set w. P x" "rest = w @ r" "s' \<in> set (ms ic (seq rs) (n, r, caps))"
  using assms unfolding seq_Cons in_ms_Seq3 in_ms_Star_Cls by blast

lemma seq_PlusE:
  assumes "s' \<in> set (ms ic (seq (Plus (Cls P) # rs)) (pos, rest, caps))"
  obtains w r n where "w \<noteq> []" "\<forall>x\<in>set w. P x" "rest = w @ r"
    "s' \<in> set (ms ic (seq rs) (n, r, caps))"
  using assms unfolding seq_Cons in_ms_Seq3 in_ms_Plus_Cls by blast

lemma seq_litE:
  assumes "s' \<in> set (ms False (seq (lit str # rs)) (pos, rest, caps))"
  obtains r n where "rest = str @ r" "s' \<in> set (ms False (seq rs) (n, r, caps))"
  using assms unfolding seq_Cons in_ms_Seq3 in_ms_lit by blast

lemma seq_ChrE:
  assumes "s' \<in> set (ms False (seq (Chr x # rs)) (pos, rest, caps))"
  obtains r n where "rest = x # r" "s' \<in> set (ms False (seq rs) (n, r, caps))"
  using assms unfolding seq_Cons in_ms_Seq3 in_ms_Chr by blast

lemma seq_Group_StarE:
  assumes "s' \<in> set (ms ic (seq (Group k (Star (Cls P)) # rs)) (pos, rest, caps))"
  obtains w r n where "\<forall>x\<in>set w. P x" "rest = w @ r"
    "s' \<in> set (ms ic (seq rs) (n, r, caps(k \<mapsto> w)))"
proof -
  from assms obtain p r c where "(p, r, c) \<in> set (ms ic (Group k (Star (Cls P))) (pos, rest, caps))"
    and m: "s' \<in> set (ms ic (seq rs) (p, r, c))"
    unfolding seq_Cons in_ms_Seq3 by blast
  then obtain w where "\<forall>x\<in>set w. P x" "rest = w @ r" "p = pos + length w"
    "c = caps(k \<mapsto> take (p - pos) rest)"
    unfolding in_ms_Group in_ms_Star_Cls by blast
  with m that [of w r p] show ?thesis by simp
qed

lemma seq_Group_PlusE:
  assumes "s' \<in> set (ms ic (seq (Group k (Plus (Cls P)) # rs)) (pos, rest, caps))"
  obtains w r n where "w \<noteq> []" "\<forall>x\<in>set w. P x" "rest = w @ r"
    "s' \<in> set (ms ic (seq rs) (n, r, caps(k \<mapsto> w)))"
proof -
  from assms obtain p r c where "(p, r, c) \<in> set (ms ic (Group k (Plus (Cls P))) (pos, rest, caps))"
    and m: "s' \<in> set (ms ic (seq rs) (p, r, c))"
    unfolding seq_Cons in_ms_Seq3 by blast
  then obtain w where "w \<noteq> []" "\<forall>x\<in>set w. P x" "rest = w @ r" "p = pos + length w"
    "c = caps(k \<mapsto> take (p - pos) rest)"
    unfolding in_ms_Group in_ms_Plus_Cls by blast
  with m that [of w r p] show ?thesis by simp
qed

lemma seq_OptE:
  assumes "s' \<in> set (ms ic (seq (Opt a # rs)) s)"
  shows "(\<exists>p r c. (p, r, c) \<in> set (ms ic a s) \<and> s' \<in> set (ms ic (seq rs) (p, r, c))) \<or>
         s' \<in> set (ms ic (seq rs) s)"
  using assms unfolding seq_Cons in_ms_Seq3 in_ms_Opt by auto

lemma seq_EolE:
  assumes "(p', r', c') \<in> set (ms ic (seq [Eol]) (pos, rest, caps))"
  shows "rest = [] \<and> c' = caps"
  using assms unfolding seq_Cons seq_Nil in_ms_Seq3 in_ms_Eol in_ms_Eps by blast

lemma seq_NilE:
  assumes "(p', r', c') \<in> set (ms ic (seq []) (pos, rest, caps))"
  shows "c' = caps \<and> r' = rest"
  using assms unfolding seq_Nil in_ms_Eps by blast

lemma action_states:
  assumes "(p', r', c') \<in> set (ms False (pattern ACTION_REGEX) (0, l, Map.empty))"
  shows "\<exists>ind dash sp path ref tail.
     l = ind @ dash @ ''uses:'' @ sp @ path @ ''@'' @ ref @ tail \<and>
     (\<forall>x\<in>set ind. is_space x) \<and>
     (dash = [] \<or> (\<exists>ws. ws \<noteq> [] \<and> (\<forall>x\<in>set ws. is_space x) \<and> dash = CHR ''-'' # ws)) \<and>
     sp \<noteq> [] \<and> (\<forall>x\<in>set sp. is_space x) \<and>
     path \<noteq> [] \<and> (\<forall>x\<in>set path. \<not> (x = CHR ''@'' \<or> is_space x)) \<and>
     ref \<noteq> [] \<and> (\<forall>x\<in>set ref. \<not> (is_space x \<or> x = CHR ''#'')) \<and>
     c' 1 = Some ind \<and> c' 2 = Some path \<and> c' 3 = Some ref \<and>
     ((tail = [] \<and> c' 4 = None) \<or>
      (\<exists>ws1 ws2 comment. (\<forall>x\<in>set ws1. is_space x) \<and> (\<forall>x\<in>set ws2. is_space x) \<and>
         (\<forall>x\<in>set comment. \<not> is_line_terminator x) \<and>
         tail = ws1 @ ''#'' @ ws2 @ comment \<and> c' 4 = Some comment))"
proof -
  from assms have "(p', r', c') \<in> set (ms False (seq
      [Group 1 (Star (Cls is_space)),
       Opt (seq [Chr CHR ''-'', Plus (Cls is_space)]),
       lit ''uses:'', Plus (Cls is_space),
       Group 2 (Plus (Cls (\<lambda>c. \<not> (c = CHR ''@'' \<or> is_space c)))),
       Chr CHR ''@'',
       Group 3 (Plus (Cls (\<lambda>c. \<not> (is_space c \<or> c = CHR ''#'')))),
       Opt (seq [Star (Cls is_space), Chr CHR ''#'', Star (Cls is_space),
                Group 4 (Star (Cls (\<lambda>c. \<not> is_line_terminator c)))]),
       Eol]) (0, l, Map.empty))"
    unfolding ACTION_REGEX_def RegExp.simps by (rule seq_BolE)
  then obtain ind r1 n1 where ind: "\<forall>x\<in>set ind. is_space x" and l: "l = ind @ r1"
    and m1: "(p', r', c') \<in> set (ms False (seq
      [Opt (seq [Chr CHR ''-'', Plus (Cls is_space)]),
       lit ''uses:'', Plus (Cls is_space),
       Group 2 (Plus (Cls (\<lambda>c. \<not> (c = CHR ''@'' \<or> is_space c)))),
       Chr CHR ''@'',
       Group 3 (Plus (Cls (\<lambda>c. \<not> (is_space c \<or> c = CHR ''#'')))),
       Opt (seq [Star (Cls is_space), Chr CHR ''#'', Star (Cls is_space),
                Group 4 (Star (Cls (\<lambda>c. \<not> is_line_terminator c)))]),
       Eol]) (n1, r1, [1 \<mapsto> ind]))"
    by (rule seq_Group_StarE)
  from seq_OptE [OF m1] obtain dash r2 n2
    where dash: "dash = [] \<or> (\<exists>ws. ws \<noteq> [] \<and> (\<forall>x\<in>set ws. is_space x) \<and> dash = CHR ''-'' # ws)"
      and r1: "r1 = dash @ r2"
      and m2: "(p', r', c') \<in> set (ms False (seq
      [lit ''uses:'', Plus (Cls is_space),
       Group 2 (Plus (Cls (\<lambda>c. \<not> (c = CHR ''@'' \<or> is_space c)))),
       Chr CHR ''@'',
       Group 3 (Plus (Cls (\<lambda>c. \<not> (is_space c \<or> c = CHR ''#'')))),
       Opt (seq [Star (Cls is_space), Chr CHR ''#'', Star (Cls is_space),
                Group 4 (Star (Cls (\<lambda>c. \<not> is_line_terminator c)))]),
       Eol]) (n2, r2, [1 \<mapsto> ind]))"
  proof (elim disjE exE conjE)
    fix p r c
    assume d: "(p, r, c) \<in> set (ms False (seq [Chr CHR ''-'', Plus (Cls is_space)]) (n1, r1, [1 \<mapsto> ind]))"
      and m: "(p', r', c') \<in> set (ms False (seq
      [lit ''uses:'', Plus (Cls is_space),
       Group 2 (Plus (Cls (\<lambda>c. \<not> (c = CHR ''@'' \<or> is_space c)))),
       Chr CHR ''@'',
       Group 3 (Plus (Cls (\<lambda>c. \<not> (is_space c \<or> c = CHR ''#'')))),
       Opt (seq [Star (Cls is_space), Chr CHR ''#'', Star (Cls is_space),
                Group 4 (Star (Cls (\<lambda>c. \<not> is_line_terminator c)))]),
       Eol]) (p, r, c))"
    from d obtain ra na where ra: "r1 = CHR ''-'' # ra"
      and d1: "(p, r, c) \<in> set (ms False (seq [Plus (Cls is_space)]) (na, ra, [1 \<mapsto> ind]))"
      by (rule seq_ChrE)
    from d1 obtain ws rb nb where ws: "ws \<noteq> []" "\<forall>x\<in>set ws. is_space x" "ra = ws @ rb"
      and d2: "(p, r, c) \<in> set (ms False (seq []) (nb, rb, [1 \<mapsto> ind]))"
      by (rule seq_PlusE)
    from seq_NilE [OF d2] have "c = [1 \<mapsto> ind]" "r = rb" by simp_all
    with ra ws m that [of "CHR ''-'' # ws" r p] show thesis by simp
  next
    assume "(p', r', c') \<in> set (ms False (seq
      [lit ''uses:'', Plus (Cls is_space),
       Group 2 (Plus (Cls (\<lambda>c. \<not> (c = CHR ''@'' \<or> is_space c)))),
       Chr CHR ''@'',
       Group 3 (Plus (Cls (\<lambda>c. \<not> (is_space c \<or> c = CHR ''#'')))),
       Opt (seq [Star (Cls is_space), Chr CHR ''#'', Star (Cls is_space),
                Group 4 (Star (Cls (\<lambda>c. \<not> is_line_terminator c)))]),
       Eol]) (n1, r1, [1 \<mapsto> ind]))"
    with that [of "[]" r1 n1] show thesis by simp
  qed
  from m2 obtain r3 n3 where r2: "r2 = ''uses:'' @ r3"
    and m3: "(p', r', c') \<in> set (ms False (seq
      [Plus (Cls is_space),
       Group 2 (Plus (Cls (\<lambda>c. \<not> (c = CHR ''@'' \<or> is_space c)))),
       Chr CHR ''@'',
       Group 3 (Plus (Cls (\<lambda>c. \<not> (is_space c \<or> c = CHR ''#'')))),
       Opt (seq [Star (Cls is_space), Chr CHR ''#'', Star (Cls is_space),
                Group 4 (Star (Cls (\<lambda>c. \<not> is_line_terminator c)))]),
       Eol]) (n3, r3, [1 \<mapsto> ind]))"
    by (rule seq_litE)
  from m3 obtain sp r4 n4 where sp: "sp \<noteq> []" "\<forall>x\<in>set sp. is_space x" and r3: "r3 = sp @ r4"
    and m4: "(p', r', c') \<in> set (ms False (seq
      [Group 2 (Plus (Cls (\<lambda>c. \<not> (c = CHR ''@'' \<or> is_space c)))),
       Chr CHR ''@'',
       Group 3 (Plus (Cls (\<lambda>c. \<not> (is_space c \<or> c = CHR ''#'')))),
       Opt (seq [Star (Cls is_space), Chr CHR ''#'', Star (Cls is_space),
                Group 4 (Star (Cls (\<lambda>c. \<not> is_line_terminator c)))]),
       Eol]) (n4, r4, [1 \<mapsto> ind]))"
    by (rule seq_PlusE)
  from m4 obtain path r5 n5 where path: "path \<noteq> []"
      "\<forall>x\<in>set path. \<not> (x = CHR ''@'' \<or> is_space x)" and r4: "r4 = path @ r5"
    and m5: "(p', r', c') \<in> set (ms False (seq
      [Chr CHR ''@'',
       Group 3 (Plus (Cls (\<lambda>c. \<not> (is_space c \<or> c = CHR ''#'')))),
       Opt (seq [Star (Cls is_space), Chr CHR ''#'', Star (Cls is_space),
                Group 4 (Star (Cls (\<lambda>c. \<not> is_line_terminator c)))]),
       Eol]) (n5, r5, [1 \<mapsto> ind, 2 \<mapsto> path]))"
    by (rule seq_Group_PlusE)
  from m5 obtain r6 n6 where r5: "r5 = CHR ''@'' # r6"
    and m6: "(p', r', c') \<in> set (ms False (seq
      [Group 3 (Plus (Cls (\<lambda>c. \<not> (is_space c \<or> c = CHR ''#'')))),
       Opt (seq [Star (Cls is_space), Chr CHR ''#'', Star (Cls is_space),
                Group 4 (Star (Cls (\<lambda>c. \<not> is_line_terminator c)))]),
       Eol]) (n6, r6, [1 \<mapsto> ind, 2 \<mapsto> path]))"
    by (rule seq_ChrE)
  from m6 obtain ref r7 n7 where ref: "ref \<noteq> []"
      "\<forall>x\<in>set ref. \<not> (is_space x \<or> x = CHR ''#'')" and r6: "r6 = ref @ r7"
    and m7: "(p', r', c') \<in> set (ms False (seq
      [Opt (seq [Star (Cls is_space), Chr CHR ''#'', Star (Cls is_space),
                Group 4 (Star (Cls (\<lambda>c. \<not> is_line_terminator c)))]),
       Eol]) (n7, r7, [1 \<mapsto> ind, 2 \<mapsto> path, 3 \<mapsto> ref]))"
    by (rule seq_Group_PlusE)
  have line: "l = ind @ dash @ ''uses:'' @ sp @ path @ ''@'' @ ref @ r7"
    using l r1 r2 r3 r4 r5 r6 by simp
  from seq_OptE [OF m7] have tail: "(r7 = [] \<and> c' = [1 \<mapsto> ind, 2 \<mapsto> path, 3 \<mapsto> ref]) \<or>
      (\<exists>ws1 ws2 comment. (\<forall>x\<in>set ws1. is_space x) \<and> (\<forall>x\<in>set ws2. is_space x) \<and>
         (\<forall>x\<in>set comment. \<not> is_line_terminator x) \<and>
         r7 = ws1 @ ''#'' @ ws2 @ comment \<and>
         c' = [1 \<mapsto> ind, 2 \<mapsto> path, 3 \<mapsto> ref, 4 \<mapsto> comment])"
  proof (elim disjE exE conjE)
    fix p r c
    assume d: "(p, r, c) \<in> set (ms False (seq [Star (Cls is_space), Chr CHR ''#'', Star (Cls is_space),
                Group 4 (Star (Cls (\<lambda>c. \<not> is_line_terminator c)))])
              (n7, r7, [1 \<mapsto> ind, 2 \<mapsto> path, 3 \<mapsto> ref]))"
      and m: "(p', r', c') \<in> set (ms False (seq [Eol]) (p, r, c))"
    from d obtain ws1 ra na where ws1: "\<forall>x\<in>set ws1. is_space x" "r7 = ws1 @ ra"
      and d1: "(p, r, c) \<in> set (ms False (seq [Chr CHR ''#'', Star (Cls is_space),
                Group 4 (Star (Cls (\<lambda>c. \<not> is_line_terminator c)))])
              (na, ra, [1 \<mapsto> ind, 2 \<mapsto> path, 3 \<mapsto> ref]))"
      by (rule seq_StarE)
    from d1 obtain rb nb where rb: "ra = CHR ''#'' # rb"
      and d2: "(p, r, c) \<in> set (ms False (seq [Star (Cls is_space),
                Group 4 (Star (Cls (\<lambda>c. \<not> is_line_terminator c)))])
              (nb, rb, [1 \<mapsto> ind, 2 \<mapsto> path, 3 \<mapsto> ref]))"
      by (rule seq_ChrE)
    from d2 obtain ws2 rc nc where ws2: "\<forall>x\<in>set ws2. is_space x" "rb = ws2 @ rc"
      and d3: "(p, r, c) \<in> set (ms False (seq [
                Group 4 (Star (Cls (\<lambda>c. \<not> is_line_terminator c)))])
              (nc, rc, [1 \<mapsto> ind, 2 \<mapsto> path, 3 \<mapsto> ref]))"
      by (rule seq_StarE)
    from d3 obtain comment rd nd where cm: "\<forall>x\<in>set comment. \<not> is_line_terminator x"
      "rc = comment @ rd"
      and d4: "(p, r, c) \<in> set (ms False (seq [])
              (nd, rd, [1 \<mapsto> ind, 2 \<mapsto> path, 3 \<mapsto> ref, 4 \<mapsto> comment]))"
      by (rule seq_Group_StarE)
    from seq_NilE [OF d4] have c: "c = [1 \<mapsto> ind, 2 \<mapsto> path, 3 \<mapsto> ref, 4 \<mapsto> comment]" "r = rd"
      by simp_all
    from seq_EolE [OF m] have "r = []" "c' = c" by simp_all
    with c ws1 rb ws2 cm have "(\<forall>x\<in>set ws1. is_space x) \<and> (\<forall>x\<in>set ws2. is_space x) \<and>
         (\<forall>x\<in>set comment. \<not> is_line_terminator x) \<and>
         r7 = ws1 @ ''#'' @ ws2 @ comment \<and>
         c' = [1 \<mapsto> ind, 2 \<mapsto> path, 3 \<mapsto> ref, 4 \<mapsto> comment]"
      by simp
    then show ?thesis by blast
  next
    assume "(p', r', c') \<in> set (ms False (seq [Eol]) (n7, r7, [1 \<mapsto> ind, 2 \<mapsto> path, 3 \<mapsto> ref]))"
    from seq_EolE [OF this] show ?thesis by simp
  qed
  then have caps: "c' 1 = Some ind" "c' 2 = Some path" "c' 3 = Some ref"
    and tail': "(r7 = [] \<and> c' 4 = None) \<or>
      (\<exists>ws1 ws2 comment. (\<forall>x\<in>set ws1. is_space x) \<and> (\<forall>x\<in>set ws2. is_space x) \<and>
         (\<forall>x\<in>set comment. \<not> is_line_terminator x) \<and>
         r7 = ws1 @ ''#'' @ ws2 @ comment \<and> c' 4 = Some comment)"
    by auto
  from line ind dash sp path ref caps tail' show ?thesis by blast
qed

section \<open>Properties of the parser and of the loop\<close>

lemma parse_lines_sound:
  "a \<in> set (parse_lines i ls) \<Longrightarrow> \<exists>j<length ls. parse_line (i + j) (ls ! j) = Some a"
proof (induction ls arbitrary: i)
  case Nil
  then show ?case by simp
next
  case (Cons l ls)
  show ?case
  proof (cases "parse_line i l = Some a")
    case True
    then have "parse_line (i + 0) ((l # ls) ! 0) = Some a" by simp
    then show ?thesis by blast
  next
    case False
    with Cons.prems have "a \<in> set (parse_lines (Suc i) ls)"
      by (auto split: option.splits)
    then obtain j where "j < length ls" "parse_line (Suc i + j) (ls ! j) = Some a"
      using Cons.IH by blast
    then have "Suc j < length (l # ls) \<and> parse_line (i + Suc j) ((l # ls) ! Suc j) = Some a"
      by simp
    then show ?thesis by blast
  qed
qed

lemma parse_line_line: "parse_line i l = Some a \<Longrightarrow> line a = int i \<and> original a = l"
  by (auto simp: parse_line_def Let_def split: option.splits)

lemma parse_lines_lines_ge: "a \<in> set (parse_lines i ls) \<Longrightarrow> int i \<le> line a"
  using parse_lines_sound [of a i ls] by (auto dest: parse_line_line)

lemma distinct_parse_lines: "distinct (map line (parse_lines i ls))"
proof (induction ls arbitrary: i)
  case Nil
  show ?case by simp
next
  case (Cons l ls)
  show ?case
  proof (cases "parse_line i l")
    case None
    with Cons show ?thesis by simp
  next
    case (Some a)
    have "line a \<notin> line ` set (parse_lines (Suc i) ls)"
      using parse_lines_lines_ge [of _ "Suc i" ls] parse_line_line [OF Some] by force
    with Some Cons show ?thesis by simp
  qed
qed

lemma parseWorkflow_original:
  assumes "a \<in> set (parseWorkflow content)"
  shows "0 \<le> line a \<and> nat (line a) < length (js_split LF content) \<and>
         original a = js_split LF content ! nat (line a)"
proof -
  obtain j where "j < length (js_split LF content)"
    and "parse_line (0 + j) (js_split LF content ! j) = Some a"
    using assms parse_lines_sound unfolding parseWorkflow_def by blast
  then show ?thesis using parse_line_line [of j _ a] by simp
qed

lemma updates_loop_body:
  "updates (loop_body resolve a st) =
     updates st @ (case produced resolve a of Some u \<Rightarrow> [u] | None \<Rightarrow> [])"
  by (simp add: loop_body_def produced_def Let_def split: sum.splits option.splits)

lemma resolved_for_loop_body:
  "resolved_for (loop_body resolve a st) = resolved_for st @ [a]"
  by (simp add: loop_body_def Let_def split: sum.splits option.splits)

lemma cancelled_loop_body: "cancelled (loop_body resolve a st) = cancelled st"
  by (simp add: loop_body_def Let_def split: sum.splits option.splits)

lemma updates_process_actions:
  "updates (process_actions resolve (\<lambda>_. False) i as st) =
     updates st @ List.map_filter (produced resolve) as"
proof (induction as arbitrary: i st)
  case Nil
  show ?case by (simp add: List.map_filter_simps)
next
  case (Cons a as)
  show ?case
    by (simp add: Cons.IH updates_loop_body List.map_filter_simps split: option.splits)
qed

lemma cancelled_process_actions:
  "cancelled (process_actions resolve (\<lambda>_. False) i as st) = cancelled st"
  by (induction as arbitrary: i st) (simp_all add: cancelled_loop_body)

lemma resolved_for_process_actions:
  "set (resolved_for (process_actions resolve tok i as st)) \<subseteq> set (resolved_for st) \<union> set as"
proof (induction as arbitrary: i st)
  case Nil
  show ?case by simp
next
  case (Cons a as)
  show ?case
    using Cons.IH [of "Suc i" "loop_body resolve a st"]
    by (auto simp: resolved_for_loop_body)
qed

lemma decide_update_line: "decide_update a info = Some u \<Longrightarrow> u_line u = line a"
  by (auto simp: decide_update_def Let_def split: if_splits)

lemma parse_lineI:
  assumes "(case js_match l ACTION_REGEX of None \<Rightarrow> False
            | Some m \<Rightarrow> group m 1 = ind \<and> group m 2 = p \<and> group m 3 = r \<and> m 4 = c)"
    and "derive_repository p = repo" and "trim p = p'" and "trim r = r'"
    and "trim (case c of Some x \<Rightarrow> x | None \<Rightarrow> []) = c'"
    and "js_test SKIP_PINNING_REGEX (case c of Some x \<Rightarrow> x | None \<Rightarrow> []) = sk"
  shows "parse_line i l = Some \<lparr>line = int i, original = l, repository = repo, fullPath = p',
           currentRef = r', currentComment = c', hasSkipPinning = sk, indentation = ind\<rparr>"
  using assms by (auto simp: parse_line_def Let_def split: option.splits)

lemma parse_skip_line:
  "parse_line i ''  - uses: a/b@c1d2 # skip-pinning'' =
     Some \<lparr>line = int i, original = ''  - uses: a/b@c1d2 # skip-pinning'', repository = ''a/b'',
           fullPath = ''a/b'', currentRef = ''c1d2'', currentComment = ''skip-pinning'',
           hasSkipPinning = True, indentation = ''  ''\<rparr>"
  by (rule parse_lineI [where c = "Some ''skip-pinning''" and ind = "''  ''" and p = "''a/b''"
        and r = "''c1d2''"]; code_simp)

lemma parse_workflow_skip:
  "parseWorkflow ''  - uses: a/b@c1d2 # skip-pinning'' =
     [\<lparr>line = 0, original = ''  - uses: a/b@c1d2 # skip-pinning'', repository = ''a/b'',
           fullPath = ''a/b'', currentRef = ''c1d2'', currentComment = ''skip-pinning'',
           hasSkipPinning = True, indentation = ''  ''\<rparr>]"
proof -
  have "js_split LF ''  - uses: a/b@c1d2 # skip-pinning'' = [''  - uses: a/b@c1d2 # skip-pinning'']"
    by code_simp
  then show ?thesis by (simp add: parseWorkflow_def parse_skip_line)
qed

lemma applyUpdates_lines:
  assumes "\<forall>u\<in>set updates'. LF \<notin> set (updated u)"
  shows "js_split LF (applyUpdates content updates') =
           fold apply_one (js_sort (\<lambda>a b. u_line b - u_line a) updates') (js_split LF content)"
proof -
  let ?ls = "fold apply_one (js_sort (\<lambda>a b. u_line b - u_line a) updates') (js_split LF content)"
  have "length ?ls = length (js_split LF content)"
    by (rule length_fold_apply_one)
  then have ne: "?ls \<noteq> []"
    using js_split_not_Nil [of LF content] by auto
  have "\<forall>l\<in>set ?ls. LF \<notin> set l"
    using set_fold_apply_one [of "js_sort (\<lambda>a b. u_line b - u_line a) updates'" "js_split LF content"]
      assms js_split_no_LF [of _ LF content]
    by (auto simp: set_js_sort)
  with ne have "js_split LF (js_join [LF] ?ls) = ?ls"
    by (rule js_split_join)
  then show ?thesis by (simp add: applyUpdates_def)
qed

section \<open>The rewrite engine\<close>

text \<open>
  C8. Applying the rewrite engine with an empty decision list returns the input text
  exactly, character for character.
\<close>

theorem applyUpdates_empty: "applyUpdates text' [] = text'"
  by (simp add: applyUpdates_def js_sort_def js_join_split)

text \<open>
  C7, as amended. For every original text and every decision list whose recorded line
  indices are within bounds and whose replacement lines contain no line feed,
  \<open>applyUpdates\<close> returns a text with exactly as many lines as the input, in which
  every line whose index is not mentioned in the decision list is identical to the
  corresponding input line.
\<close>

theorem applyUpdates_frame:
  assumes "\<forall>u\<in>set updates'. 0 \<le> u_line u \<and> u_line u < int (length (js_split LF content))"
    and "\<forall>u\<in>set updates'. LF \<notin> set (updated u)"
  shows "length (js_split LF (applyUpdates content updates')) = length (js_split LF content) \<and>
         (\<forall>i<length (js_split LF content). int i \<notin> u_line ` set updates' \<longrightarrow>
            js_split LF (applyUpdates content updates') ! i = js_split LF content ! i)"
  using nth_fold_apply_one [of _ "js_sort (\<lambda>a b. u_line b - u_line a) updates'" "js_split LF content"]
  by (simp add: applyUpdates_lines [OF assms(2)] length_fold_apply_one set_js_sort)

text \<open>
  An instance: the second of three lines is replaced, the text keeps its three lines, and
  the first and the third are as they were.
\<close>

theorem applyUpdates_frame_witness:
  "length (js_split LF (applyUpdates (''a'' @ [LF] @ ''b'' @ [LF] @ ''c'')
      [\<lparr>u_line = 1, u_original = ''b'', updated = ''B'', u_repository = [], oldVersion = [],
        newVersion = [], newCommit = []\<rparr>])) = 3 \<and>
   js_split LF (applyUpdates (''a'' @ [LF] @ ''b'' @ [LF] @ ''c'')
      [\<lparr>u_line = 1, u_original = ''b'', updated = ''B'', u_repository = [], oldVersion = [],
        newVersion = [], newCommit = []\<rparr>]) ! 0 = ''a'' \<and>
   js_split LF (applyUpdates (''a'' @ [LF] @ ''b'' @ [LF] @ ''c'')
      [\<lparr>u_line = 1, u_original = ''b'', updated = ''B'', u_repository = [], oldVersion = [],
        newVersion = [], newCommit = []\<rparr>]) ! 2 = ''c''"
proof -
  let ?c = "''a'' @ [LF] @ ''b'' @ [LF] @ ''c''"
  let ?us = "[\<lparr>u_line = 1, u_original = ''b'', updated = ''B'', u_repository = [],
        oldVersion = [], newVersion = [], newCommit = []\<rparr>]"
  have s: "js_split LF ?c = [''a'', ''b'', ''c'']"
    by simp
  have h1: "\<forall>u\<in>set ?us. 0 \<le> u_line u \<and> u_line u < int (length (js_split LF ?c))"
    unfolding s by simp
  have h2: "\<forall>u\<in>set ?us. LF \<notin> set (updated u)"
    by simp
  from applyUpdates_frame [OF h1 h2]
  have len: "length (js_split LF (applyUpdates ?c ?us)) = 3"
    and nth: "\<And>i. i < 3 \<Longrightarrow> int i \<noteq> 1 \<Longrightarrow>
            js_split LF (applyUpdates ?c ?us) ! i = [''a'', ''b'', ''c''] ! i"
    unfolding s by simp_all
  from len nth [of 0] nth [of 2] show ?thesis by simp
qed

text \<open>
  C7 as it is stated, without the condition on the replacement lines, fails: a
  replacement line that holds a line feed, written to line 0 of a text of one line,
  gives a text of two lines.
\<close>

theorem applyUpdates_frame_counterexample:
  "0 \<le> u_line \<lparr>u_line = 0, u_original = ''a'', updated = ''x'' @ [LF] @ ''y'', u_repository = [],
        oldVersion = [], newVersion = [], newCommit = []\<rparr> \<and>
   u_line \<lparr>u_line = 0, u_original = ''a'', updated = ''x'' @ [LF] @ ''y'', u_repository = [],
        oldVersion = [], newVersion = [], newCommit = []\<rparr> < int (length (js_split LF ''a'')) \<and>
   length (js_split LF ''a'') = 1 \<and>
   length (js_split LF (applyUpdates ''a''
      [\<lparr>u_line = 0, u_original = ''a'', updated = ''x'' @ [LF] @ ''y'', u_repository = [],
        oldVersion = [], newVersion = [], newCommit = []\<rparr>])) = 2"
  by (simp add: applyUpdates_def js_sort_def apply_one_def array_set_def)

section \<open>The skip marker in the rewrite stage\<close>

text \<open>
  C10. For every reference with \<open>hasSkipPinning = true\<close>, \<open>updateActionLine\<close> returns
  the reference's original source line verbatim, for all display-version and commit-hash
  arguments; for a reference extracted from a document, that is the line of the document
  at the reference's index.
\<close>

theorem updateActionLine_skip:
  "hasSkipPinning action \<Longrightarrow>
     updateActionLine action newV newC = original action \<and>
     (action \<in> set (parseWorkflow content) \<longrightarrow>
        updateActionLine action newV newC = js_split LF content ! nat (line action))"
  using parseWorkflow_original [of action content] by (simp add: updateActionLine_def)

text \<open>An instance: the reference extracted from a line with the marker.\<close>

theorem updateActionLine_skip_witness:
  "hasSkipPinning \<lparr>line = 0, original = ''  - uses: a/b@c1d2 # skip-pinning'', repository = ''a/b'',
           fullPath = ''a/b'', currentRef = ''c1d2'', currentComment = ''skip-pinning'',
           hasSkipPinning = True, indentation = ''  ''\<rparr> \<and>
   \<lparr>line = 0, original = ''  - uses: a/b@c1d2 # skip-pinning'', repository = ''a/b'',
           fullPath = ''a/b'', currentRef = ''c1d2'', currentComment = ''skip-pinning'',
           hasSkipPinning = True, indentation = ''  ''\<rparr>
     \<in> set (parseWorkflow ''  - uses: a/b@c1d2 # skip-pinning'') \<and>
   updateActionLine \<lparr>line = 0, original = ''  - uses: a/b@c1d2 # skip-pinning'', repository = ''a/b'',
           fullPath = ''a/b'', currentRef = ''c1d2'', currentComment = ''skip-pinning'',
           hasSkipPinning = True, indentation = ''  ''\<rparr> ''v2.0.0''
           ''0123456789012345678901234567890123456789'' = ''  - uses: a/b@c1d2 # skip-pinning'' \<and>
   updateActionLine \<lparr>line = 0, original = ''  - uses: a/b@c1d2 # skip-pinning'', repository = ''a/b'',
           fullPath = ''a/b'', currentRef = ''c1d2'', currentComment = ''skip-pinning'',
           hasSkipPinning = True, indentation = ''  ''\<rparr> ''v2.0.0''
           ''0123456789012345678901234567890123456789'' =
     js_split LF ''  - uses: a/b@c1d2 # skip-pinning'' ! 0"
proof -
  let ?a = "\<lparr>line = 0, original = ''  - uses: a/b@c1d2 # skip-pinning'', repository = ''a/b'',
           fullPath = ''a/b'', currentRef = ''c1d2'', currentComment = ''skip-pinning'',
           hasSkipPinning = True, indentation = ''  ''\<rparr>"
  have skip: "hasSkipPinning ?a" by simp
  have mem: "?a \<in> set (parseWorkflow ''  - uses: a/b@c1d2 # skip-pinning'')"
    by (simp add: parse_workflow_skip)
  from updateActionLine_skip [OF skip, of "''v2.0.0''" "''0123456789012345678901234567890123456789''"
      "''  - uses: a/b@c1d2 # skip-pinning''"] skip mem
  show ?thesis by simp
qed

end
